theory Spec2Isabelle
  imports Main
begin

section \<open>Python string operations used by the service\<close>

text \<open>
  A Python \<open>str\<close> is modelled as a \<open>string\<close>, a list of characters read as the code
  points 0..255. On that range the definitions below agree with CPython's
  \<open>str.isspace\<close>, \<open>str.lower\<close>, \<open>str.strip\<close>, \<open>str.split\<close>, \<open>str.join\<close>,
  \<open>str.endswith\<close> and the substring test \<open>in\<close>.
\<close>

definition newline :: char where
  "newline = CHR 0x0A"

definition isspace :: "char \<Rightarrow> bool" where
  "isspace c =
     (let n = (of_char c :: nat)
      in (9 \<le> n \<and> n \<le> 13) \<or> (28 \<le> n \<and> n \<le> 32) \<or> n = 133 \<or> n = 160)"

definition lower_char :: "char \<Rightarrow> char" where
  "lower_char c =
     (let n = (of_char c :: nat)
      in if (65 \<le> n \<and> n \<le> 90) \<or> (192 \<le> n \<and> n \<le> 222 \<and> n \<noteq> 215)
         then char_of (n + 32) else c)"

definition str_lower :: "string \<Rightarrow> string" where
  "str_lower s = map lower_char s"

definition str_strip :: "string \<Rightarrow> string" where
  "str_strip s = rev (dropWhile isspace (rev (dropWhile isspace s)))"

text \<open>\<open>sub in s\<close>: some suffix of \<open>s\<close> starts with \<open>sub\<close>.\<close>

fun str_contains :: "string \<Rightarrow> string \<Rightarrow> bool" where
  "str_contains [] sub = (sub = [])"
| "str_contains (c # cs) sub = (take (length sub) (c # cs) = sub \<or> str_contains cs sub)"

definition str_endswith :: "string \<Rightarrow> string \<Rightarrow> bool" where
  "str_endswith s suffix = (length suffix \<le> length s \<and> drop (length s - length suffix) s = suffix)"

text \<open>\<open>sep.join(xs)\<close>.\<close>

fun str_join :: "string \<Rightarrow> string list \<Rightarrow> string" where
  "str_join sep [] = []"
| "str_join sep [x] = x"
| "str_join sep (x # y # ys) = x @ sep @ str_join sep (y # ys)"

text \<open>
  \<open>s.split(sep)\<close> for a non-empty separator: scan from the left, cut at each
  occurrence of \<open>sep\<close> and resume after it. \<open>cur\<close> is the piece read so far.
  (Python raises \<open>ValueError\<close> for an empty separator; the service only splits on
  the two-character separator below.)
\<close>

fun split_from :: "string \<Rightarrow> string \<Rightarrow> string \<Rightarrow> string list" where
  "split_from sep cur [] = [cur]"
| "split_from sep cur (c # cs) =
     (if sep \<noteq> [] \<and> take (length sep) (c # cs) = sep
      then cur # split_from sep [] (drop (length sep) (c # cs))
      else split_from sep (cur @ [c]) cs)"

definition str_split :: "string \<Rightarrow> string \<Rightarrow> string list" where
  "str_split s sep = split_from sep [] s"

text \<open>\<open>s.split()\<close>: the maximal runs of non-whitespace characters.\<close>

fun split_ws_from :: "string \<Rightarrow> string \<Rightarrow> string list" where
  "split_ws_from cur [] = (if cur = [] then [] else [cur])"
| "split_ws_from cur (c # cs) =
     (if isspace c
      then (if cur = [] then split_ws_from [] cs else cur # split_ws_from [] cs)
      else split_ws_from (cur @ [c]) cs)"

definition str_split_ws :: "string \<Rightarrow> string list" where
  "str_split_ws s = split_ws_from [] s"

text \<open>The paragraph separator \<open>'\n\n'\<close>.\<close>

definition para_sep :: string where
  "para_sep = [newline, newline]"

section \<open>Heading levels\<close>

text \<open>\<open>get_heading_level\<close> of \<open>app.py\<close>.\<close>

definition get_heading_level :: "string \<Rightarrow> int" where
  "get_heading_level label =
     (let label_lower = str_lower label
      in if str_contains label_lower ''title'' then 1
         else if str_contains label_lower ''h1'' then 1
         else if str_contains label_lower ''h2'' then 2
         else if str_contains label_lower ''h3'' then 3
         else if str_contains label_lower ''h4'' then 4
         else 2)"

text \<open>\<open>DoclingProcessor._get_header_level\<close> of \<open>processors/docling_processor.py\<close>.\<close>

definition get_header_level :: "string \<Rightarrow> int" where
  "get_header_level label =
     (if str_contains (str_lower label) ''h1'' \<or> str_contains (str_lower label) ''title'' then 1
      else if str_contains (str_lower label) ''h2'' then 2
      else if str_contains (str_lower label) ''h3'' then 3
      else if str_contains (str_lower label) ''h4'' then 4
      else 1)"


text \<open>Decimal rendering of a natural number, as an f-string renders an \<open>int\<close>.\<close>

fun str_nat :: "nat \<Rightarrow> string" where
  "str_nat n =
     (if n < 10 then [char_of (48 + n)]
      else str_nat (n div 10) @ [char_of (48 + n mod 10)])"

declare str_nat.simps [simp del]

section \<open>The document object\<close>

text \<open>
  An exception carries its message (\<open>str(e)\<close>). An attribute probed with \<open>hasattr\<close>
  is absent, raises something other than \<open>AttributeError\<close> when read, or holds a value.
\<close>

datatype exn = Exception string

fun str_exn :: "exn \<Rightarrow> string" where
  "str_exn (Exception msg) = msg"

datatype 'a attr = Absent | Raises exn | Present 'a

record text_item =
  item_text :: string
  label :: "string option"
  page_no :: "int option"

text \<open>
  A table: its exporters are absent (\<open>None\<close>), or return a string or raise;
  \<open>table_str\<close> is \<open>str(table)\<close>.
\<close>

record table_item =
  table_export_to_markdown :: "(exn + string) option"
  table_export_to_html :: "(exn + string) option"
  table_str :: string
  table_page_no :: "int option"

datatype picture = Picture
datatype page = Page

text \<open>
  The document the converter returns. Its collections are attributes probed with
  \<open>hasattr\<close>; \<open>export_to_markdown\<close> is the outcome of the markdown export, a string
  or an exception, the same at every call on one document.
\<close>

record document =
  texts :: "text_item list attr"
  tables :: "table_item list attr"
  pictures :: "picture list attr"
  pages :: "page list attr"
  export_to_markdown :: "exn + string"

section \<open>Structural outline (\<open>extract_document_structure\<close>)\<close>

record section_entry =
  sec_level :: int
  sec_text :: string
  sec_type :: string

record table_entry =
  tab_index :: nat
  tab_content :: string
  tab_description :: string

record outline =
  title :: "string option"
  sections :: "section_entry list"
  struct_tables :: "table_entry list"
  key_elements :: "string list"

definition is_heading_item :: "text_item \<Rightarrow> bool" where
  "is_heading_item t =
     (case label t of
        None \<Rightarrow> False
      | Some l \<Rightarrow> l \<noteq> [] \<and>
          (str_contains (str_lower l) ''title'' \<or> str_contains (str_lower l) ''heading''))"

definition section_of :: "text_item \<Rightarrow> section_entry" where
  "section_of t =
     \<lparr>sec_level = get_heading_level (the (label t)),
      sec_text = str_strip (item_text t),
      sec_type = the (label t)\<rparr>"

fun sections_loop :: "text_item list \<Rightarrow> outline \<Rightarrow> outline" where
  "sections_loop [] st = st"
| "sections_loop (t # ts) st =
     (if is_heading_item t
      then sections_loop ts (st\<lparr>sections := sections st @ [section_of t]\<rparr>)
      else sections_loop ts st)"

definition table_markdown :: "table_item \<Rightarrow> exn + string" where
  "table_markdown t =
     (case table_export_to_markdown t of None \<Rightarrow> Inr (table_str t) | Some r \<Rightarrow> r)"

text \<open>The loop over the tables stops at the first exception and keeps what it has built.\<close>

fun tables_loop :: "nat \<Rightarrow> table_item list \<Rightarrow> outline \<Rightarrow> outline" where
  "tables_loop i [] st = st"
| "tables_loop i (t # ts) st =
     (case table_markdown t of
        Inl e \<Rightarrow> st
      | Inr table_content \<Rightarrow>
          tables_loop (Suc i) ts
            (st\<lparr>struct_tables := struct_tables st @
               [\<lparr>tab_index = i, tab_content = table_content,
                 tab_description = ''Table '' @ str_nat (i + 1) @ '' from document''\<rparr>]\<rparr>))"

definition extract_document_structure :: "document \<Rightarrow> outline" where
  "extract_document_structure doc =
     (let st = \<lparr>title = None, sections = [], struct_tables = [], key_elements = []\<rparr>
      in case texts doc of
           Raises e \<Rightarrow> st
         | Absent \<Rightarrow>
             (case tables doc of
                Raises e \<Rightarrow> st
              | Absent \<Rightarrow> st
              | Present tbs \<Rightarrow> tables_loop 0 tbs st)
         | Present ts \<Rightarrow>
             (let st1 = sections_loop ts st
              in case tables doc of
                   Raises e \<Rightarrow> st1
                 | Absent \<Rightarrow> st1
                 | Present tbs \<Rightarrow> tables_loop 0 tbs st1))"

section \<open>Paragraph-aware chunks (\<open>create_llm_chunks\<close>)\<close>

record chunk =
  c_text :: string
  c_size :: int
  c_type :: string

definition paragraph_chunk :: "string list \<Rightarrow> int \<Rightarrow> chunk" where
  "paragraph_chunk current_chunk current_size =
     \<lparr>c_text = str_join para_sep current_chunk, c_size = current_size,
      c_type = ''paragraph_group''\<rparr>"

text \<open>
  The \<open>for paragraph in paragraphs\<close> loop; the state is \<open>chunks\<close>, \<open>current_chunk\<close>
  and \<open>current_size\<close>.
\<close>

fun paragraphs_loop ::
  "int \<Rightarrow> string list \<Rightarrow> chunk list \<Rightarrow> string list \<Rightarrow> int
     \<Rightarrow> chunk list \<times> string list \<times> int" where
  "paragraphs_loop max_chunk_size [] chunks current_chunk current_size =
     (chunks, current_chunk, current_size)"
| "paragraphs_loop max_chunk_size (p # ps) chunks current_chunk current_size =
     (let paragraph = str_strip p
      in if paragraph = [] then
           paragraphs_loop max_chunk_size ps chunks current_chunk current_size
         else if current_size + int (length paragraph) > max_chunk_size \<and> current_chunk \<noteq> [] then
           paragraphs_loop max_chunk_size ps
             (chunks @ [paragraph_chunk current_chunk current_size])
             [paragraph] (int (length paragraph))
         else
           paragraphs_loop max_chunk_size ps chunks
             (current_chunk @ [paragraph]) (current_size + int (length paragraph)))"

definition paragraph_chunks :: "string \<Rightarrow> int \<Rightarrow> chunk list" where
  "paragraph_chunks full_text max_chunk_size =
     (case paragraphs_loop max_chunk_size (str_split full_text para_sep) [] [] 0 of
        (chunks, current_chunk, current_size) \<Rightarrow>
          if current_chunk \<noteq> [] then chunks @ [paragraph_chunk current_chunk current_size]
          else chunks)"

definition word_chunk :: "string list \<Rightarrow> chunk" where
  "word_chunk ws =
     \<lparr>c_text = str_join '' '' ws, c_size = int (length (str_join '' '' ws)),
      c_type = ''word_split''\<rparr>"

text \<open>The fallback loop over the words; the state is \<open>chunks\<close> and \<open>chunk_words\<close>.\<close>

fun words_loop ::
  "int \<Rightarrow> string list \<Rightarrow> chunk list \<Rightarrow> string list \<Rightarrow> chunk list \<times> string list" where
  "words_loop max_chunk_size [] chunks chunk_words = (chunks, chunk_words)"
| "words_loop max_chunk_size (w # ws) chunks chunk_words =
     (if int (length (str_join '' '' (chunk_words @ [w]))) > max_chunk_size
      then words_loop max_chunk_size ws (chunks @ [word_chunk chunk_words]) [w]
      else words_loop max_chunk_size ws chunks (chunk_words @ [w]))"

definition word_chunks :: "string \<Rightarrow> int \<Rightarrow> chunk list" where
  "word_chunks full_text max_chunk_size =
     (case words_loop max_chunk_size (str_split_ws full_text) [] [] of
        (chunks, chunk_words) \<Rightarrow>
          if chunk_words \<noteq> [] then chunks @ [word_chunk chunk_words] else chunks)"

text \<open>
  The only call of the \<open>try\<close> block that can raise is the markdown export, before any
  chunk is appended. The fallback exports again and splits by words; when the export
  raises again the result is the single error chunk.
\<close>

definition create_llm_chunks :: "document \<Rightarrow> int \<Rightarrow> chunk list" where
  "create_llm_chunks doc max_chunk_size =
     (case export_to_markdown doc of
        Inr full_text \<Rightarrow> paragraph_chunks full_text max_chunk_size
      | Inl e \<Rightarrow>
          (case export_to_markdown doc of
             Inr full_text \<Rightarrow> word_chunks full_text max_chunk_size
           | Inl e' \<Rightarrow>
               [\<lparr>c_text = ''Error creating chunks'', c_size = 0, c_type = ''error''\<rparr>]))"

section \<open>Metadata\<close>

text \<open>The body of the \<open>try\<close> in \<open>get_page_count\<close>, and the function with its handler.\<close>

definition page_count_try :: "document \<Rightarrow> exn + int" where
  "page_count_try doc =
     (case pages doc of
        Present ps \<Rightarrow> Inr (int (length ps))
      | Absent \<Rightarrow> Inr 1
      | Raises e \<Rightarrow> Inl e)"

definition get_page_count :: "document \<Rightarrow> int" where
  "get_page_count doc = (case page_count_try doc of Inr n \<Rightarrow> n | Inl e \<Rightarrow> 1)"

definition has_tables :: "document \<Rightarrow> bool" where
  "has_tables doc =
     (case tables doc of Present tbs \<Rightarrow> length tbs > 0 | Absent \<Rightarrow> False | Raises e \<Rightarrow> False)"

definition has_images :: "document \<Rightarrow> bool" where
  "has_images doc =
     (case pictures doc of Present ps \<Rightarrow> length ps > 0 | Absent \<Rightarrow> False | Raises e \<Rightarrow> False)"

section \<open>The \<open>/extract\<close> handler\<close>

record metadata =
  page_count :: int
  md_has_tables :: bool
  md_has_images :: bool
  processing_method :: string

record content =
  markdown :: string
  content_structure :: outline
  text_chunks :: "chunk list"
  content_metadata :: metadata

text \<open>The three dictionaries the handler returns.\<close>

datatype response_body =
    ExtractionResult (ex_filename: string) (ex_success: bool) (ex_content: content)
  | CallbackSent (cb_success: bool) (cb_message: string) (cb_resource_id: string)
  | ProcessingError (err_filename: string) (err_success: bool) (err_error: string)
      (err_content: "content option")

text \<open>
  A request ends with a raised \<open>HTTPException\<close> (status code and detail) or with a
  returned dictionary, which the framework sends with status 200.
\<close>

datatype response = HTTPException int string | Returned response_body

fun status_code :: "response \<Rightarrow> int" where
  "status_code (HTTPException code detail) = code"
| "status_code (Returned body) = 200"

text \<open>
  What the handler's surroundings do during one request: the configured key, the
  outcome of reading the upload, of writing the temporary file, of the conversion
  (\<open>converter.convert(temp_path).document\<close>) and of the callback POST (its status code).
  Exceptions are those caught by \<open>except Exception\<close>.
\<close>

record environment =
  api_key :: string
  read_file :: "exn + string"
  write_temp :: "exn + string"
  convert :: "exn + document"
  post_callback :: "exn + int"

record upload =
  filename :: string

definition truthy_str :: "string option \<Rightarrow> bool" where
  "truthy_str s = (case s of None \<Rightarrow> False | Some v \<Rightarrow> v \<noteq> [])"

text \<open>The inner \<open>try\<close> block, from the conversion to the \<open>return\<close>.\<close>

definition process_converted ::
  "environment \<Rightarrow> upload \<Rightarrow> string option \<Rightarrow> string option \<Rightarrow> exn + response_body" where
  "process_converted env file callback_url resource_id =
     (case convert env of
        Inl e \<Rightarrow> Inl e
      | Inr doc \<Rightarrow>
          (case export_to_markdown doc of
             Inl e \<Rightarrow> Inl e
           | Inr md \<Rightarrow>
               (let extraction_result =
                      ExtractionResult (filename file) True
                        \<lparr>markdown = md,
                         content_structure = extract_document_structure doc,
                         text_chunks = create_llm_chunks doc 2000,
                         content_metadata =
                           \<lparr>page_count = get_page_count doc,
                            md_has_tables = has_tables doc,
                            md_has_images = has_images doc,
                            processing_method = ''docling''\<rparr>\<rparr>
                in if truthy_str callback_url \<and> truthy_str resource_id then
                     (case post_callback env of
                        Inr status \<Rightarrow>
                          Inr (CallbackSent True ''Results sent to callback URL'' (the resource_id))
                      | Inl callback_error \<Rightarrow> Inr extraction_result)
                   else Inr extraction_result)))"

text \<open>
  The outer \<open>try\<close> block: read the upload, write the temporary file, process. The
  \<open>finally\<close> clause, which removes the temporary file, is taken not to raise and leaves
  the result as it is.
\<close>

definition extract_try ::
  "environment \<Rightarrow> upload \<Rightarrow> string option \<Rightarrow> string option \<Rightarrow> exn + response_body" where
  "extract_try env file callback_url resource_id =
     (case read_file env of
        Inl e \<Rightarrow> Inl e
      | Inr file_content \<Rightarrow>
          (case write_temp env of
             Inl e \<Rightarrow> Inl e
           | Inr temp_path \<Rightarrow> process_converted env file callback_url resource_id))"

definition extract_document ::
  "environment \<Rightarrow> upload \<Rightarrow> string option \<Rightarrow> string option \<Rightarrow> response" where
  "extract_document env file callback_url resource_id =
     (if \<not> str_endswith (str_lower (filename file)) ''.pdf'' then
        HTTPException 400 ''Only PDF files are supported''
      else
        (case extract_try env file callback_url resource_id of
           Inr body \<Rightarrow> Returned body
         | Inl e \<Rightarrow> Returned (ProcessingError (filename file) False (str_exn e) None)))"

text \<open>\<open>POST /extract\<close>: the \<open>verify_api_key\<close> dependency runs before the handler.\<close>

definition post_extract ::
  "environment \<Rightarrow> string \<Rightarrow> upload \<Rightarrow> string option \<Rightarrow> string option \<Rightarrow> response" where
  "post_extract env credentials file callback_url resource_id =
     (if credentials \<noteq> api_key env then HTTPException 401 ''Invalid API key''
      else extract_document env file callback_url resource_id)"

section \<open>Page-aware chunks (\<open>DoclingProcessor._create_chunks\<close>)\<close>

datatype meta_value = MNone | MInt int | MStr string

fun meta_page :: "int option \<Rightarrow> meta_value" where
  "meta_page None = MNone"
| "meta_page (Some p) = MInt p"

record document_chunk =
  dc_id :: string
  dc_content :: string
  dc_metadata :: "(string \<times> meta_value) list"
  dc_page_number :: "int option"
  dc_chunk_type :: "string option"

definition text_chunk :: "string \<Rightarrow> nat \<Rightarrow> string list \<Rightarrow> int option \<Rightarrow> document_chunk" where
  "text_chunk document_id chunk_id current_chunk current_page =
     \<lparr>dc_id = document_id @ ''_chunk_'' @ str_nat chunk_id,
      dc_content = str_join '' '' current_chunk,
      dc_metadata =
        [(''page_number'', meta_page current_page),
         (''chunk_index'', MInt (int chunk_id)),
         (''chunk_type'', MStr ''text'')],
      dc_page_number = current_page,
      dc_chunk_type = Some ''text''\<rparr>"

text \<open>Python truth value of \<open>current_page\<close>: \<open>None\<close> and \<open>0\<close> are false.\<close>

definition truthy_page :: "int option \<Rightarrow> bool" where
  "truthy_page p = (case p of None \<Rightarrow> False | Some n \<Rightarrow> n \<noteq> 0)"

text \<open>
  The \<open>for text_item in doc.texts\<close> loop; the state is \<open>chunks\<close>, \<open>chunk_id\<close>,
  \<open>current_chunk\<close> and \<open>current_page\<close>.
\<close>

fun text_items_loop ::
  "string \<Rightarrow> text_item list \<Rightarrow> document_chunk list \<Rightarrow> nat \<Rightarrow> string list \<Rightarrow> int option
     \<Rightarrow> document_chunk list \<times> nat \<times> string list \<times> int option" where
  "text_items_loop document_id [] chunks chunk_id current_chunk current_page =
     (chunks, chunk_id, current_chunk, current_page)"
| "text_items_loop document_id (t # ts) chunks chunk_id current_chunk current_page =
     (let text = str_strip (item_text t)
      in if text = [] then
           text_items_loop document_id ts chunks chunk_id current_chunk current_page
         else if (truthy_page current_page \<and> page_no t \<noteq> current_page)
                 \<or> length (str_join '' '' current_chunk) > 1000 then
           (if current_chunk \<noteq> [] then
              text_items_loop document_id ts
                (chunks @ [text_chunk document_id chunk_id current_chunk current_page])
                (chunk_id + 1) [text] (page_no t)
            else
              text_items_loop document_id ts chunks chunk_id (current_chunk @ [text]) (page_no t))
         else
           text_items_loop document_id ts chunks chunk_id (current_chunk @ [text]) (page_no t))"

definition text_chunks_of :: "string \<Rightarrow> text_item list \<Rightarrow> document_chunk list" where
  "text_chunks_of document_id items =
     (case text_items_loop document_id items [] 0 [] None of
        (chunks, chunk_id, current_chunk, current_page) \<Rightarrow>
          if current_chunk \<noteq> []
          then chunks @ [text_chunk document_id chunk_id current_chunk current_page]
          else chunks)"

definition table_html :: "table_item \<Rightarrow> exn + string" where
  "table_html t =
     (case table_export_to_html t of None \<Rightarrow> Inr (table_str t) | Some r \<Rightarrow> r)"

definition table_chunk :: "string \<Rightarrow> nat \<Rightarrow> string \<Rightarrow> int option \<Rightarrow> document_chunk" where
  "table_chunk document_id i html page =
     \<lparr>dc_id = document_id @ ''_table_'' @ str_nat i,
      dc_content = html,
      dc_metadata =
        [(''page_number'', meta_page page),
         (''table_index'', MInt (int i)),
         (''chunk_type'', MStr ''table'')],
      dc_page_number = page,
      dc_chunk_type = Some ''table''\<rparr>"

text \<open>The loop over the tables stops at the first exception and keeps the chunks so far.\<close>

fun table_chunks_loop ::
  "string \<Rightarrow> nat \<Rightarrow> table_item list \<Rightarrow> document_chunk list \<Rightarrow> document_chunk list" where
  "table_chunks_loop document_id i [] chunks = chunks"
| "table_chunks_loop document_id i (t # ts) chunks =
     (case table_html t of
        Inl e \<Rightarrow> chunks
      | Inr html \<Rightarrow>
          table_chunks_loop document_id (Suc i) ts
            (chunks @ [table_chunk document_id i html (table_page_no t)]))"

definition create_chunks :: "document \<Rightarrow> string \<Rightarrow> document_chunk list" where
  "create_chunks doc document_id =
     (case texts doc of
        Raises e \<Rightarrow> []
      | Absent \<Rightarrow>
          (case tables doc of
             Raises e \<Rightarrow> []
           | Absent \<Rightarrow> []
           | Present tbs \<Rightarrow> table_chunks_loop document_id 0 tbs [])
      | Present items \<Rightarrow>
          (let chunks = text_chunks_of document_id items
           in case tables doc of
                Raises e \<Rightarrow> chunks
              | Absent \<Rightarrow> chunks
              | Present tbs \<Rightarrow> table_chunks_loop document_id 0 tbs chunks))"


section \<open>Example documents and requests\<close>

definition title_doc :: document where
  "title_doc =
     \<lparr>texts = Present
        [\<lparr>item_text = '' Annual Report '', label = Some ''title'', page_no = Some 1\<rparr>,
         \<lparr>item_text = ''Body'', label = Some ''paragraph'', page_no = Some 1\<rparr>],
      tables = Absent, pictures = Absent, pages = Present [Page, Page],
      export_to_markdown = Inr ''Annual Report''\<rparr>"

definition no_pages_doc :: document where
  "no_pages_doc =
     \<lparr>texts = Present [], tables = Present [], pictures = Present [], pages = Present [],
      export_to_markdown = Inr []\<rparr>"

definition failing_env :: environment where
  "failing_env =
     \<lparr>api_key = ''secret'', read_file = Inr ''%PDF'', write_temp = Inr ''/tmp/x.pdf'',
      convert = Inl (Exception ''corrupt file''), post_callback = Inr 200\<rparr>"

section \<open>Notions used to state the chunking properties\<close>

text \<open>The trimmed, non-empty paragraphs of a markdown text, in order.\<close>

definition trimmed_paragraphs :: "string list \<Rightarrow> string list" where
  "trimmed_paragraphs ps = filter (\<lambda>p. p \<noteq> []) (map str_strip ps)"

definition paragraphs_of :: "string \<Rightarrow> string list" where
  "paragraphs_of md = trimmed_paragraphs (str_split md para_sep)"

text \<open>The sum of the lengths of a list of paragraphs (separators not counted).\<close>

definition total_length :: "string list \<Rightarrow> int" where
  "total_length ps = (\<Sum>p\<leftarrow>ps. int (length p))"

definition markdown_doc :: "string \<Rightarrow> document" where
  "markdown_doc md =
     \<lparr>texts = Absent, tables = Absent, pictures = Absent, pages = Absent,
      export_to_markdown = Inr md\<rparr>"

text \<open>A document that is one paragraph of 2001 characters.\<close>

definition long_paragraph :: string where
  "long_paragraph = replicate 2001 (CHR ''a'')"

text \<open>Two paragraphs of 1500 characters each, and a short text of three paragraphs.\<close>

definition two_paragraphs_md :: string where
  "two_paragraphs_md = replicate 1500 (CHR ''a'') @ para_sep @ replicate 1500 (CHR ''b'')"

definition small_md :: string where
  "small_md = ''Intro'' @ para_sep @ '' Body text '' @ para_sep @ para_sep @ ''End''"

section \<open>Notions used to state the page-aware chunking properties\<close>

text \<open>
  The trimmed text of an item, the items the loop does not skip, and the text chunk made
  from a group of items under a given index: its content joins the items' trimmed texts,
  its page number is that of the group's last item.
\<close>

definition trimmed_text :: "text_item \<Rightarrow> string" where
  "trimmed_text t = str_strip (item_text t)"

definition nonblank_items :: "text_item list \<Rightarrow> text_item list" where
  "nonblank_items items = filter (\<lambda>t. trimmed_text t \<noteq> []) items"

definition group_chunk :: "string \<Rightarrow> nat \<times> text_item list \<Rightarrow> document_chunk" where
  "group_chunk document_id ig =
     text_chunk document_id (fst ig) (map trimmed_text (snd ig)) (page_no (last (snd ig)))"

definition plain_item :: "string \<Rightarrow> int option \<Rightarrow> text_item" where
  "plain_item txt p = \<lparr>item_text = txt, label = Some ''paragraph'', page_no = p\<rparr>"

definition texts_doc :: "text_item list \<Rightarrow> table_item list \<Rightarrow> document" where
  "texts_doc items tbs =
     \<lparr>texts = Present items, tables = Present tbs, pictures = Absent, pages = Absent,
      export_to_markdown = Inr []\<rparr>"

definition html_table :: "string \<Rightarrow> table_item" where
  "html_table html =
     \<lparr>table_export_to_markdown = None, table_export_to_html = Some (Inr html),
      table_str = ''table'', table_page_no = None\<rparr>"

text \<open>
  Example documents: an item without a page number followed by one on page 1; two items
  on page 2 and one on page 3; the three items \<open>a\<close>, \<open>b\<close>, \<open>c\<close> on pages \<open>p1\<close>, \<open>p1\<close>, \<open>p2\<close>.
\<close>

definition unpaged_first_items :: "text_item list" where
  "unpaged_first_items = [plain_item ''a'' None, plain_item ''b'' (Some 1)]"

definition paged_items :: "text_item list" where
  "paged_items = [plain_item ''x'' (Some 2), plain_item '' y '' (Some 2), plain_item ''z'' (Some 3)]"

definition abc_items :: "int \<Rightarrow> int \<Rightarrow> text_item list" where
  "abc_items p1 p2 =
     [plain_item ''a'' (Some p1), plain_item ''b'' (Some p1), plain_item ''c'' (Some p2)]"

section \<open>Substring test\<close>

text \<open>\<open>str_contains s sub\<close> holds exactly when \<open>sub\<close> occurs in \<open>s\<close>.\<close>

lemma str_contains_iff: "str_contains s sub \<longleftrightarrow> (\<exists>pre post. s = pre @ sub @ post)"
proof (induction s)
  case Nil
  show ?case by auto
next
  case (Cons c cs)
  have pre: "take (length sub) (c # cs) = sub \<longleftrightarrow> (\<exists>post. c # cs = sub @ post)"
    by (metis append_eq_conv_conj)
  show ?case
  proof
    assume "str_contains (c # cs) sub"
    then consider "take (length sub) (c # cs) = sub" | "str_contains cs sub" by auto
    then show "\<exists>pre post. c # cs = pre @ sub @ post"
    proof cases
      case 1
      then obtain post where "c # cs = sub @ post" using pre by blast
      then have "c # cs = [] @ sub @ post" by simp
      then show ?thesis by blast
    next
      case 2
      then obtain pre post where "cs = pre @ sub @ post" using Cons.IH by blast
      then have "c # cs = (c # pre) @ sub @ post" by simp
      then show ?thesis by blast
    qed
  next
    assume "\<exists>pre post. c # cs = pre @ sub @ post"
    then obtain pre post where eq: "c # cs = pre @ sub @ post" by blast
    show "str_contains (c # cs) sub"
    proof (cases pre)
      case Nil
      with eq have "take (length sub) (c # cs) = sub" using pre by auto
      then show ?thesis by simp
    next
      case (Cons a pre')
      with eq have "cs = pre' @ sub @ post" by simp
      then have "str_contains cs sub" using Cons.IH by blast
      then show ?thesis by simp
    qed
  qed
qed

section \<open>Heading levels: properties\<close>

text \<open>
  C4. A label whose lower-cased form contains none of \<open>title\<close>, \<open>h1\<close>, \<open>h2\<close>, \<open>h3\<close>,
  \<open>h4\<close> gets the default level 2 from \<open>get_heading_level\<close>.
\<close>

theorem get_heading_level_default:
  assumes "\<not> str_contains (str_lower lbl) ''title''"
    and "\<not> str_contains (str_lower lbl) ''h1''"
    and "\<not> str_contains (str_lower lbl) ''h2''"
    and "\<not> str_contains (str_lower lbl) ''h3''"
    and "\<not> str_contains (str_lower lbl) ''h4''"
  shows "get_heading_level lbl = 2"
  using assms by (simp add: get_heading_level_def)

theorem get_heading_level_default_witness:
  "\<not> str_contains (str_lower ''Section_Header'') ''title''
   \<and> \<not> str_contains (str_lower ''Section_Header'') ''h1''
   \<and> \<not> str_contains (str_lower ''Section_Header'') ''h2''
   \<and> \<not> str_contains (str_lower ''Section_Header'') ''h3''
   \<and> \<not> str_contains (str_lower ''Section_Header'') ''h4''
   \<and> get_heading_level ''Section_Header'' = 2"
proof -
  have low: "str_lower ''Section_Header'' = ''section_header''"
    by (simp add: str_lower_def lower_char_def char_of_eq_iff)
  have h: "\<not> str_contains (str_lower ''Section_Header'') ''title''"
    "\<not> str_contains (str_lower ''Section_Header'') ''h1''"
    "\<not> str_contains (str_lower ''Section_Header'') ''h2''"
    "\<not> str_contains (str_lower ''Section_Header'') ''h3''"
    "\<not> str_contains (str_lower ''Section_Header'') ''h4''"
    unfolding low by simp_all
  from h get_heading_level_default [OF h] show ?thesis by blast
qed

text \<open>
  The processor's own \<open>_get_header_level\<close> differs here: its default is 1.
\<close>

lemma get_header_level_default:
  assumes "\<not> str_contains (str_lower lbl) ''title''"
    and "\<not> str_contains (str_lower lbl) ''h1''"
    and "\<not> str_contains (str_lower lbl) ''h2''"
    and "\<not> str_contains (str_lower lbl) ''h3''"
    and "\<not> str_contains (str_lower lbl) ''h4''"
  shows "get_header_level lbl = 1"
  using assms by (simp add: get_header_level_def)

text \<open>
  C9. A label that contains \<open>title\<close> in any letter case (a part \<open>mid\<close> whose lower-cased
  form is \<open>title\<close>, between any \<open>pre\<close> and \<open>post\<close>) has level 1, whatever else it
  contains; this holds for \<open>get_heading_level\<close> and for \<open>_get_header_level\<close>.
\<close>

theorem title_label_level_one:
  assumes "map lower_char mid = ''title''"
  shows "get_heading_level (pre @ mid @ post) = 1 \<and> get_header_level (pre @ mid @ post) = 1"
proof -
  have "str_lower (pre @ mid @ post) = str_lower pre @ ''title'' @ str_lower post"
    using assms by (simp add: str_lower_def)
  then have "str_contains (str_lower (pre @ mid @ post)) ''title''"
    unfolding str_contains_iff by blast
  then show ?thesis by (simp add: get_heading_level_def get_header_level_def)
qed

theorem title_label_level_one_witness:
  "map lower_char ''TiTlE'' = ''title''
   \<and> get_heading_level (''Sub'' @ ''TiTlE'' @ ''-h3'') = 1
   \<and> get_header_level (''Sub'' @ ''TiTlE'' @ ''-h3'') = 1"
proof -
  have h: "map lower_char ''TiTlE'' = ''title''"
    by (simp add: lower_char_def char_of_eq_iff)
  from h title_label_level_one [OF h, of "''Sub''" "''-h3''"] show ?thesis by blast
qed

section \<open>Structural outline: properties\<close>

lemma sections_loop_title: "title (sections_loop ts st) = title st"
  by (induction ts arbitrary: st) auto

lemma sections_loop_sections:
  "sections (sections_loop ts st) = sections st @ map section_of (filter is_heading_item ts)"
  by (induction ts arbitrary: st) auto

lemma tables_loop_title: "title (tables_loop i tbs st) = title st"
  by (induction tbs arbitrary: i st) (auto split: sum.splits)

lemma tables_loop_sections: "sections (tables_loop i tbs st) = sections st"
  by (induction tbs arbitrary: i st) (auto split: sum.splits)

text \<open>
  C10. The outline's \<open>title\<close> is \<open>None\<close> for every document, also when an exception cut
  the extraction short; the text items whose label contains \<open>title\<close> or \<open>heading\<close>
  appear as the entries of \<open>sections\<close>, in document order, and nowhere else.
\<close>

theorem outline_title_none:
  "title (extract_document_structure doc) = None
   \<and> (\<forall>ts. texts doc = Present ts \<longrightarrow>
        sections (extract_document_structure doc) = map section_of (filter is_heading_item ts))"
  by (simp add: extract_document_structure_def Let_def sections_loop_title sections_loop_sections
      tables_loop_title tables_loop_sections split: attr.splits)

theorem outline_title_none_witness:
  "title (extract_document_structure title_doc) = None
   \<and> sections (extract_document_structure title_doc)
       = [\<lparr>sec_level = 1, sec_text = ''Annual Report'', sec_type = ''title''\<rparr>]"
  using outline_title_none [of title_doc]
  by (simp add: title_doc_def is_heading_item_def section_of_def get_heading_level_def
      str_lower_def lower_char_def str_strip_def isspace_def)

section \<open>Page count: properties\<close>

text \<open>
  C3, as the claim states it, fails on a document whose page collection is present and
  empty: the count is 0.
\<close>

theorem get_page_count_zero: "get_page_count no_pages_doc = 0"
  by (simp add: get_page_count_def page_count_try_def no_pages_doc_def)

text \<open>
  C3, amended. \<open>get_page_count\<close> returns the length of the page collection when \<open>pages\<close>
  is present and 1 when it is absent or reading it raises; every exception is handled; the
  result is 0 exactly when the page collection is present and empty.
\<close>

theorem get_page_count_result:
  "get_page_count doc =
     (case pages doc of Present ps \<Rightarrow> int (length ps) | Absent \<Rightarrow> 1 | Raises e \<Rightarrow> 1)
   \<and> (get_page_count doc = 0 \<longleftrightarrow> pages doc = Present [])"
  by (simp add: get_page_count_def page_count_try_def split: attr.splits)

theorem get_page_count_result_witness:
  "get_page_count title_doc = 2
   \<and> get_page_count (title_doc\<lparr>pages := Absent\<rparr>) = 1
   \<and> get_page_count (title_doc\<lparr>pages := Raises (Exception ''boom'')\<rparr>) = 1"
  using get_page_count_result [of title_doc]
    get_page_count_result [of "title_doc\<lparr>pages := Absent\<rparr>"]
    get_page_count_result [of "title_doc\<lparr>pages := Raises (Exception ''boom'')\<rparr>"]
  by (simp add: title_doc_def)

section \<open>The handler: properties\<close>

lemma post_extract_status:
  "status_code (post_extract env credentials file callback_url resource_id) =
     (if credentials \<noteq> api_key env then 401
      else if \<not> str_endswith (str_lower (filename file)) ''.pdf'' then 400
      else 200)"
  by (simp add: post_extract_def extract_document_def split: sum.splits)

text \<open>
  C8. For an authenticated PDF upload whose conversion raises, or whose markdown export
  raises during the transform, the handler returns (status 200) the dictionary with the
  file name, \<open>success = False\<close>, the exception's message and \<open>content = None\<close>. Status
  codes other than 200 come only from the authentication and file-type checks.
\<close>

theorem extract_processing_failure:
  assumes "credentials = api_key env"
    and "str_endswith (str_lower (filename file)) ''.pdf''"
    and "read_file env = Inr file_content"
    and "write_temp env = Inr temp_path"
    and "convert env = Inl e \<or> (\<exists>doc. convert env = Inr doc \<and> export_to_markdown doc = Inl e)"
  shows "post_extract env credentials file callback_url resource_id
           = Returned (ProcessingError (filename file) False (str_exn e) None)
         \<and> status_code (post_extract env credentials file callback_url resource_id) = 200
         \<and> (\<forall>env' cr f cb rid.
               status_code (post_extract env' cr f cb rid) \<noteq> 200 \<longrightarrow>
                 cr \<noteq> api_key env' \<or> \<not> str_endswith (str_lower (filename f)) ''.pdf'')"
proof -
  have "extract_try env file callback_url resource_id = Inl e"
    using assms(3-5) by (auto simp: extract_try_def process_converted_def)
  then have "post_extract env credentials file callback_url resource_id
           = Returned (ProcessingError (filename file) False (str_exn e) None)"
    using assms(1,2) by (simp add: post_extract_def extract_document_def)
  moreover have "\<forall>env' cr f cb rid.
               status_code (post_extract env' cr f cb rid) \<noteq> 200 \<longrightarrow>
                 cr \<noteq> api_key env' \<or> \<not> str_endswith (str_lower (filename f)) ''.pdf''"
    by (simp add: post_extract_status)
  ultimately show ?thesis by simp
qed

theorem extract_processing_failure_witness:
  "post_extract failing_env ''secret'' \<lparr>filename = ''Report.PDF''\<rparr> None None
     = Returned (ProcessingError ''Report.PDF'' False ''corrupt file'' None)
   \<and> status_code (post_extract failing_env ''secret'' \<lparr>filename = ''Report.PDF''\<rparr> None None) = 200"
proof -
  have h1: "''secret'' = api_key failing_env" by (simp add: failing_env_def)
  have h2: "str_endswith (str_lower (filename \<lparr>filename = ''Report.PDF''\<rparr>)) ''.pdf''"
    by (simp add: str_endswith_def str_lower_def lower_char_def char_of_eq_iff)
  have h3: "read_file failing_env = Inr ''%PDF''" by (simp add: failing_env_def)
  have h4: "write_temp failing_env = Inr ''/tmp/x.pdf''" by (simp add: failing_env_def)
  have h5: "convert failing_env = Inl (Exception ''corrupt file'')
            \<or> (\<exists>doc. convert failing_env = Inr doc
                  \<and> export_to_markdown doc = Inl (Exception ''corrupt file''))"
    by (simp add: failing_env_def)
  from extract_processing_failure [OF h1 h2 h3 h4 h5, of None None] show ?thesis by simp
qed

section \<open>Splitting and joining on the paragraph separator\<close>

lemma isspace_newline: "isspace newline"
  by (simp add: isspace_def newline_def)

lemma str_strip_decomp: "\<exists>a b. s = a @ str_strip s @ b"
proof -
  let ?t = "dropWhile isspace s"
  have "rev ?t = takeWhile isspace (rev ?t) @ dropWhile isspace (rev ?t)" by simp
  then have "rev (rev ?t) = rev (takeWhile isspace (rev ?t) @ dropWhile isspace (rev ?t))"
    by simp
  then have "?t = str_strip s @ rev (takeWhile isspace (rev ?t))"
    unfolding str_strip_def rev_append rev_rev_ident .
  moreover have "s = takeWhile isspace s @ ?t" by simp
  ultimately have "s = takeWhile isspace s @ str_strip s @ rev (takeWhile isspace (rev ?t))"
    by simp
  then show ?thesis by blast
qed

lemma str_strip_no_sep:
  assumes "\<not> str_contains s sub"
  shows "\<not> str_contains (str_strip s) sub"
proof
  assume "str_contains (str_strip s) sub"
  then obtain pre post where "str_strip s = pre @ sub @ post"
    unfolding str_contains_iff by blast
  moreover obtain a b where "s = a @ str_strip s @ b" using str_strip_decomp by blast
  ultimately have "s = (a @ pre) @ sub @ (post @ b)" by simp
  then have "str_contains s sub" unfolding str_contains_iff by blast
  with assms show False by simp
qed

lemma str_strip_last:
  assumes "str_strip s \<noteq> []"
  shows "\<not> isspace (last (str_strip s))"
proof -
  let ?d = "dropWhile isspace (rev (dropWhile isspace s))"
  have ne: "?d \<noteq> []" using assms by (simp add: str_strip_def)
  have "last (str_strip s) = hd ?d"
    using ne by (simp add: str_strip_def last_rev)
  moreover have "\<not> isspace (hd ?d)" using ne by (rule hd_dropWhile)
  ultimately show ?thesis by simp
qed

lemma snoc_no_sep:
  assumes "\<not> str_contains cur para_sep"
    and "\<not> (cur \<noteq> [] \<and> last cur = newline \<and> c = newline)"
  shows "\<not> str_contains (cur @ [c]) para_sep"
proof
  assume "str_contains (cur @ [c]) para_sep"
  then obtain pre post where eq: "cur @ [c] = pre @ [newline, newline] @ post"
    unfolding str_contains_iff para_sep_def by blast
  show False
  proof (cases post rule: rev_cases)
    case Nil
    with eq have "cur @ [c] = (pre @ [newline]) @ [newline]" by simp
    then have "cur = pre @ [newline]" and "c = newline" by simp_all
    with assms(2) show False by simp
  next
    case (snoc post' x)
    with eq have "cur @ [c] = (pre @ [newline, newline] @ post') @ [x]" by simp
    then have "cur = pre @ para_sep @ post'" by (simp add: para_sep_def)
    then have "str_contains cur para_sep" unfolding str_contains_iff by blast
    with assms(1) show False by simp
  qed
qed

lemma split_from_pieces_no_sep:
  assumes "x \<in> set (split_from sep cur s)"
    and "sep = para_sep"
    and "\<not> str_contains cur para_sep"
    and "\<not> (cur \<noteq> [] \<and> last cur = newline \<and> s \<noteq> [] \<and> hd s = newline)"
  shows "\<not> str_contains x para_sep"
  using assms
proof (induction sep cur s rule: split_from.induct)
  case (1 sep cur)
  then show ?case by simp
next
  case (2 sep cur c cs)
  show ?case
  proof (cases "sep \<noteq> [] \<and> take (length sep) (c # cs) = sep")
    case True
    with "2.prems"(1) consider "x = cur"
      | "x \<in> set (split_from sep [] (drop (length sep) (c # cs)))" by auto
    then show ?thesis
    proof cases
      case 1
      with "2.prems"(3) show ?thesis by simp
    next
      case 2
      from "2.IH"(1) [OF True 2 "2.prems"(2)] show ?thesis by (simp add: para_sep_def)
    qed
  next
    case False
    with "2.prems"(1) have x: "x \<in> set (split_from sep (cur @ [c]) cs)" by auto
    have a: "\<not> str_contains (cur @ [c]) para_sep"
      using "2.prems"(3,4) by (intro snoc_no_sep) auto
    have "\<not> (c = newline \<and> cs \<noteq> [] \<and> hd cs = newline)"
      using False "2.prems"(2) by (cases cs) (auto simp: para_sep_def)
    then have b: "\<not> (cur @ [c] \<noteq> [] \<and> last (cur @ [c]) = newline \<and> cs \<noteq> [] \<and> hd cs = newline)"
      by simp
    from "2.IH"(2) [OF False x "2.prems"(2) a b] show ?thesis .
  qed
qed

lemma split_from_clean_prefix:
  assumes "\<not> str_contains p para_sep" and "p = [] \<or> last p \<noteq> newline"
  shows "split_from para_sep cur (p @ para_sep @ rest) = (cur @ p) # split_from para_sep [] rest"
  using assms
proof (induction p arbitrary: cur)
  case Nil
  show ?case by (simp add: para_sep_def)
next
  case (Cons c p)
  have no: "take (length para_sep) (c # p @ para_sep @ rest) \<noteq> para_sep"
  proof (cases p)
    case Nil
    with Cons.prems(2) show ?thesis by (simp add: para_sep_def)
  next
    case (Cons d p')
    with Cons.prems(1) show ?thesis by (auto simp: para_sep_def)
  qed
  have a: "\<not> str_contains p para_sep" using Cons.prems(1) by simp
  have b: "p = [] \<or> last p \<noteq> newline" using Cons.prems(2) by auto
  from Cons.IH [OF a b, of "cur @ [c]"] no show ?case by simp
qed

lemma split_from_clean_last:
  assumes "\<not> str_contains p para_sep"
  shows "split_from para_sep cur p = [cur @ p]"
  using assms
proof (induction p arbitrary: cur)
  case Nil
  show ?case by simp
next
  case (Cons c p)
  then show ?case by (auto simp: para_sep_def)
qed

lemma str_join_Cons:
  "g \<noteq> [] \<Longrightarrow> str_join sep (x # g) = x @ sep @ str_join sep g"
  by (cases g) simp_all

lemma split_join_clean:
  assumes "g \<noteq> []"
    and "\<forall>p\<in>set g. \<not> str_contains p para_sep \<and> (p = [] \<or> last p \<noteq> newline)"
  shows "split_from para_sep cur (str_join para_sep g) = (cur @ hd g) # tl g"
  using assms
proof (induction g arbitrary: cur)
  case Nil
  then show ?case by simp
next
  case (Cons x g)
  show ?case
  proof (cases "g = []")
    case True
    with Cons.prems(2) show ?thesis by (simp add: split_from_clean_last)
  next
    case False
    have "split_from para_sep cur (x @ para_sep @ str_join para_sep g)
            = (cur @ x) # split_from para_sep [] (str_join para_sep g)"
      using Cons.prems(2) by (intro split_from_clean_prefix) auto
    moreover have "split_from para_sep [] (str_join para_sep g) = ([] @ hd g) # tl g"
      using False Cons.prems(2) by (intro Cons.IH) auto
    ultimately show ?thesis using False by (simp add: str_join_Cons)
  qed
qed

lemma str_join_append:
  "g \<noteq> [] \<Longrightarrow> h \<noteq> [] \<Longrightarrow> str_join sep (g @ h) = str_join sep g @ sep @ str_join sep h"
  by (induction sep g rule: str_join.induct) (auto simp: neq_Nil_conv)

lemma str_join_concat:
  assumes "\<forall>g\<in>set groups. g \<noteq> []"
  shows "str_join sep (map (str_join sep) groups) = str_join sep (concat groups)"
  using assms
proof (induction groups)
  case Nil
  show ?case by simp
next
  case (Cons g groups)
  show ?case
  proof (cases groups)
    case Nil
    then show ?thesis by simp
  next
    case (Cons h hs)
    then have ne: "concat groups \<noteq> []" using Cons.prems by auto
    have "str_join sep (map (str_join sep) (g # groups))
            = str_join sep g @ sep @ str_join sep (map (str_join sep) groups)"
      using Cons by simp
    also have "\<dots> = str_join sep g @ sep @ str_join sep (concat groups)"
      using Cons.IH Cons.prems by simp
    also have "\<dots> = str_join sep (g @ concat groups)"
      using ne Cons.prems by (simp add: str_join_append)
    finally show ?thesis by simp
  qed
qed

lemma paragraphs_of_clean:
  assumes "p \<in> set (paragraphs_of md)"
  shows "p \<noteq> [] \<and> \<not> str_contains p para_sep \<and> last p \<noteq> newline"
proof -
  from assms obtain x where x: "x \<in> set (str_split md para_sep)" and p: "p = str_strip x"
    and ne: "p \<noteq> []"
    by (auto simp: paragraphs_of_def trimmed_paragraphs_def)
  have "\<not> str_contains x para_sep"
    using x unfolding str_split_def by (rule split_from_pieces_no_sep) (simp_all add: para_sep_def)
  then have "\<not> str_contains p para_sep" unfolding p by (rule str_strip_no_sep)
  moreover have "\<not> isspace (last p)" using ne unfolding p by (rule str_strip_last)
  then have "last p \<noteq> newline" using isspace_newline by auto
  ultimately show ?thesis using ne by simp
qed

section \<open>The paragraph loop\<close>

lemma total_length_simps [simp]:
  "total_length [] = 0"
  "total_length (p # ps) = int (length p) + total_length ps"
  "total_length (ps @ qs) = total_length ps + total_length qs"
  by (simp_all add: total_length_def)

lemma trimmed_paragraphs_simps [simp]:
  "trimmed_paragraphs [] = []"
  "trimmed_paragraphs (p # ps) =
     (if str_strip p = [] then trimmed_paragraphs ps else str_strip p # trimmed_paragraphs ps)"
  by (simp_all add: trimmed_paragraphs_def)

lemma paragraphs_loop_groups:
  assumes "current_size = total_length current_chunk"
    and "current_chunk = [] \<or> total_length current_chunk \<le> m \<or> length current_chunk = 1"
  shows "\<exists>groups cur'.
           paragraphs_loop m ps chunks current_chunk current_size
             = (chunks @ map (\<lambda>g. paragraph_chunk g (total_length g)) groups, cur',
                total_length cur')
         \<and> (\<forall>g\<in>set groups. g \<noteq> [] \<and> (total_length g \<le> m \<or> length g = 1))
         \<and> (cur' = [] \<or> total_length cur' \<le> m \<or> length cur' = 1)
         \<and> concat groups @ cur' = current_chunk @ trimmed_paragraphs ps"
  using assms
proof (induction ps arbitrary: chunks current_chunk current_size)
  case Nil
  then show ?case by (intro exI [of _ "[]"] exI [of _ current_chunk]) simp
next
  case (Cons p ps)
  let ?q = "str_strip p"
  show ?case
  proof (cases "?q = []")
    case True
    from Cons.IH [OF Cons.prems, of chunks] True show ?thesis by simp
  next
    case False
    show ?thesis
    proof (cases "current_size + int (length ?q) > m \<and> current_chunk \<noteq> []")
      case True
      have a: "int (length ?q) = total_length [?q]" by simp
      have b: "[?q] = [] \<or> total_length [?q] \<le> m \<or> length [?q] = 1" by simp
      from Cons.IH [OF a b, of "chunks @ [paragraph_chunk current_chunk current_size]"]
      obtain groups cur' where
        run: "paragraphs_loop m ps (chunks @ [paragraph_chunk current_chunk current_size])
                [?q] (int (length ?q))
              = ((chunks @ [paragraph_chunk current_chunk current_size])
                   @ map (\<lambda>g. paragraph_chunk g (total_length g)) groups, cur', total_length cur')"
        and ok: "\<forall>g\<in>set groups. g \<noteq> [] \<and> (total_length g \<le> m \<or> length g = 1)"
        and cur: "cur' = [] \<or> total_length cur' \<le> m \<or> length cur' = 1"
        and cat: "concat groups @ cur' = [?q] @ trimmed_paragraphs ps"
        by blast
      have "paragraphs_loop m (p # ps) chunks current_chunk current_size
              = (chunks @ map (\<lambda>g. paragraph_chunk g (total_length g)) (current_chunk # groups),
                 cur', total_length cur')"
        using True False run Cons.prems(1) by (simp add: Let_def)
      moreover have "\<forall>g\<in>set (current_chunk # groups).
                       g \<noteq> [] \<and> (total_length g \<le> m \<or> length g = 1)"
        using ok True Cons.prems(2) by auto
      moreover have "concat (current_chunk # groups) @ cur'
                       = current_chunk @ trimmed_paragraphs (p # ps)"
        using cat False by simp
      ultimately show ?thesis using cur by blast
    next
      case no_flush: False
      have a: "current_size + int (length ?q) = total_length (current_chunk @ [?q])"
        using Cons.prems(1) by simp
      have b: "current_chunk @ [?q] = [] \<or> total_length (current_chunk @ [?q]) \<le> m
               \<or> length (current_chunk @ [?q]) = 1"
        using no_flush Cons.prems(1) by auto
      from Cons.IH [OF a b, of chunks]
      obtain groups cur' where
        run: "paragraphs_loop m ps chunks (current_chunk @ [?q])
                (current_size + int (length ?q))
              = (chunks @ map (\<lambda>g. paragraph_chunk g (total_length g)) groups, cur',
                 total_length cur')"
        and ok: "\<forall>g\<in>set groups. g \<noteq> [] \<and> (total_length g \<le> m \<or> length g = 1)"
        and cur: "cur' = [] \<or> total_length cur' \<le> m \<or> length cur' = 1"
        and cat: "concat groups @ cur' = (current_chunk @ [?q]) @ trimmed_paragraphs ps"
        by blast
      have "paragraphs_loop m (p # ps) chunks current_chunk current_size
              = (chunks @ map (\<lambda>g. paragraph_chunk g (total_length g)) groups, cur',
                 total_length cur')"
        using no_flush False run by (auto simp: Let_def)
      moreover have "concat groups @ cur' = current_chunk @ trimmed_paragraphs (p # ps)"
        using cat False by simp
      ultimately show ?thesis using ok cur by blast
    qed
  qed
qed

lemma paragraph_chunks_groups:
  "\<exists>groups.
     paragraph_chunks md m = map (\<lambda>g. paragraph_chunk g (total_length g)) groups
     \<and> (\<forall>g\<in>set groups. g \<noteq> [] \<and> (total_length g \<le> m \<or> length g = 1))
     \<and> concat groups = paragraphs_of md"
proof -
  have a: "(0::int) = total_length []" by simp
  have b: "([]::string list) = [] \<or> total_length [] \<le> m \<or> length ([]::string list) = 1" by simp
  from paragraphs_loop_groups [OF a b, of "str_split md para_sep" "[]"]
  obtain groups cur' where
    run: "paragraphs_loop m (str_split md para_sep) [] [] 0
            = (map (\<lambda>g. paragraph_chunk g (total_length g)) groups, cur', total_length cur')"
    and ok: "\<forall>g\<in>set groups. g \<noteq> [] \<and> (total_length g \<le> m \<or> length g = 1)"
    and cur: "cur' = [] \<or> total_length cur' \<le> m \<or> length cur' = 1"
    and cat: "concat groups @ cur' = paragraphs_of md"
    by (auto simp: paragraphs_of_def)
  show ?thesis
  proof (cases "cur' = []")
    case True
    with run ok cat show ?thesis
      by (intro exI [of _ groups]) (simp add: paragraph_chunks_def)
  next
    case False
    with run ok cur cat show ?thesis
      by (intro exI [of _ "groups @ [cur']"]) (simp add: paragraph_chunks_def)
  qed
qed

lemma total_length_nonneg: "0 \<le> total_length ps"
  by (induction ps) auto

lemma paragraphs_loop_no_flush:
  "current_size + total_length (trimmed_paragraphs ps) \<le> max_chunk_size \<Longrightarrow>
   paragraphs_loop max_chunk_size ps chunks current_chunk current_size
     = (chunks, current_chunk @ trimmed_paragraphs ps,
        current_size + total_length (trimmed_paragraphs ps))"
proof (induction ps arbitrary: current_chunk current_size)
  case Nil
  show ?case by simp
next
  case (Cons p ps)
  show ?case
  proof (cases "str_strip p = []")
    case True
    with Cons show ?thesis by simp
  next
    case False
    have "0 \<le> total_length (trimmed_paragraphs ps)" by (rule total_length_nonneg)
    with Cons.prems False
    have le: "current_size + int (length (str_strip p)) \<le> max_chunk_size" by simp
    have "(current_size + int (length (str_strip p))) + total_length (trimmed_paragraphs ps)
            \<le> max_chunk_size"
      using Cons.prems False by simp
    from Cons.IH [OF this, of "current_chunk @ [str_strip p]"] False le
    show ?thesis by (simp add: Let_def)
  qed
qed

section \<open>The example texts\<close>

lemma no_newline_no_sep: "newline \<notin> set s \<Longrightarrow> \<not> str_contains s para_sep"
  by (induction s) (auto simp: para_sep_def dest: in_set_takeD)

lemma str_strip_no_space: "\<forall>c\<in>set s. \<not> isspace c \<Longrightarrow> str_strip s = s"
proof -
  assume a: "\<forall>c\<in>set s. \<not> isspace c"
  have d: "\<And>xs. \<forall>c\<in>set xs. \<not> isspace c \<Longrightarrow> dropWhile isspace xs = xs"
    by (case_tac xs) auto
  have "dropWhile isspace s = s" using a by (rule d)
  moreover have "dropWhile isspace (rev s) = rev s" using a by (intro d) simp
  ultimately show ?thesis by (simp add: str_strip_def)
qed

lemma replicate_plain:
  assumes "\<not> isspace a" and "0 < n"
  shows "str_strip (replicate n a) = replicate n a"
    and "\<not> str_contains (replicate n a) para_sep"
    and "replicate n a = [] \<or> last (replicate n a) \<noteq> newline"
proof -
  show "str_strip (replicate n a) = replicate n a"
    using assms by (intro str_strip_no_space) simp
  have "a \<noteq> newline" using assms(1) isspace_newline by auto
  then show "\<not> str_contains (replicate n a) para_sep"
    by (intro no_newline_no_sep) simp
  show "replicate n a = [] \<or> last (replicate n a) \<noteq> newline"
    using \<open>a \<noteq> newline\<close> assms(2) by simp
qed

lemma long_paragraph_paragraphs: "paragraphs_of long_paragraph = [long_paragraph]"
proof -
  have sp: "\<not> isspace (CHR ''a'')" by (simp add: isspace_def)
  have "str_split long_paragraph para_sep = [long_paragraph]"
    unfolding str_split_def long_paragraph_def
    using split_from_clean_last [OF replicate_plain(2) [OF sp, of 2001], of "[]"] by simp
  moreover have "str_strip long_paragraph = long_paragraph"
    unfolding long_paragraph_def using replicate_plain(1) [OF sp, of 2001] by simp
  moreover have "long_paragraph \<noteq> []" by (simp add: long_paragraph_def)
  ultimately show ?thesis by (simp add: paragraphs_of_def)
qed

lemma long_paragraph_chunks:
  "create_llm_chunks (markdown_doc long_paragraph) 2000
     = [\<lparr>c_text = long_paragraph, c_size = 2001, c_type = ''paragraph_group''\<rparr>]"
proof -
  have sp: "\<not> isspace (CHR ''a'')" by (simp add: isspace_def)
  have split: "str_split long_paragraph para_sep = [long_paragraph]"
    unfolding str_split_def long_paragraph_def
    using split_from_clean_last [OF replicate_plain(2) [OF sp, of 2001], of "[]"] by simp
  have strip: "str_strip long_paragraph = long_paragraph"
    unfolding long_paragraph_def using replicate_plain(1) [OF sp, of 2001] by simp
  have ne: "long_paragraph \<noteq> []" and len: "length long_paragraph = 2001"
    by (simp_all add: long_paragraph_def)
  have "paragraphs_loop 2000 [long_paragraph] [] [] 0 = ([], [long_paragraph], 2001)"
    by (simp add: strip ne len Let_def)
  then show ?thesis
    by (simp add: create_llm_chunks_def markdown_doc_def paragraph_chunks_def split
        paragraph_chunk_def)
qed

lemma two_paragraphs_md_paragraphs:
  "paragraphs_of two_paragraphs_md = [replicate 1500 (CHR ''a''), replicate 1500 (CHR ''b'')]"
proof -
  have spa: "\<not> isspace (CHR ''a'')" and spb: "\<not> isspace (CHR ''b'')"
    by (simp_all add: isspace_def)
  note a = replicate_plain [OF spa, of 1500] and b = replicate_plain [OF spb, of 1500]
  have "str_split two_paragraphs_md para_sep
          = [replicate 1500 (CHR ''a''), replicate 1500 (CHR ''b'')]"
    unfolding str_split_def two_paragraphs_md_def
    using split_from_clean_prefix [OF a(2) a(3), of "[]" "replicate 1500 (CHR ''b'')"]
      split_from_clean_last [OF b(2), of "[]"]
    by simp
  then show ?thesis using a(1) b(1) by (simp add: paragraphs_of_def)
qed

lemma small_md_paragraphs: "paragraphs_of small_md = [''Intro'', ''Body text'', ''End'']"
  by (simp add: paragraphs_of_def small_md_def str_split_def para_sep_def newline_def
      str_strip_def isspace_def)

lemma paragraph_chunk_split:
  assumes "g \<noteq> []" and "set g \<subseteq> set (paragraphs_of md)"
  shows "str_split (c_text (paragraph_chunk g n)) para_sep = g"
proof -
  have "\<forall>p\<in>set g. \<not> str_contains p para_sep \<and> (p = [] \<or> last p \<noteq> newline)"
    using assms(2) paragraphs_of_clean by blast
  from split_join_clean [OF assms(1) this, of "[]"] assms(1) show ?thesis
    by (simp add: str_split_def paragraph_chunk_def)
qed

section \<open>Paragraph-aware chunks: properties\<close>

text \<open>
  C7. When the markdown has at least one trimmed non-empty paragraph and their lengths sum
  to less than the maximum chunk size, \<open>create_llm_chunks\<close> returns exactly one chunk, of
  type \<open>paragraph_group\<close>, whose text is those paragraphs joined with the paragraph
  separator.
\<close>

theorem small_markdown_one_chunk:
  assumes "export_to_markdown doc = Inr md"
    and "paragraphs_of md \<noteq> []"
    and "total_length (paragraphs_of md) < max_chunk_size"
  shows "create_llm_chunks doc max_chunk_size =
           [\<lparr>c_text = str_join para_sep (paragraphs_of md),
             c_size = total_length (paragraphs_of md),
             c_type = ''paragraph_group''\<rparr>]"
proof -
  have "0 + total_length (trimmed_paragraphs (str_split md para_sep)) \<le> max_chunk_size"
    using assms(3) by (simp add: paragraphs_of_def)
  from paragraphs_loop_no_flush [OF this, of "[]" "[]"]
  have "paragraphs_loop max_chunk_size (str_split md para_sep) [] [] 0
          = ([], paragraphs_of md, total_length (paragraphs_of md))"
    by (simp add: paragraphs_of_def)
  then show ?thesis
    using assms(1,2) by (simp add: create_llm_chunks_def paragraph_chunks_def paragraph_chunk_def)
qed

theorem small_markdown_one_chunk_witness:
  "create_llm_chunks (markdown_doc small_md) 2000 =
     [\<lparr>c_text = ''Intro'' @ para_sep @ ''Body text'' @ para_sep @ ''End'', c_size = 17,
       c_type = ''paragraph_group''\<rparr>]"
proof -
  have h1: "export_to_markdown (markdown_doc small_md) = Inr small_md"
    by (simp add: markdown_doc_def)
  have h2: "paragraphs_of small_md \<noteq> []" by (simp add: small_md_paragraphs)
  have h3: "total_length (paragraphs_of small_md) < 2000" by (simp add: small_md_paragraphs)
  from small_markdown_one_chunk [OF h1 h2 h3] show ?thesis
    by (simp add: small_md_paragraphs)
qed

text \<open>
  C2, as the claim states it, fails on a document that is a single paragraph of 2001
  characters: the only chunk records size 2001.
\<close>

theorem oversized_paragraph_chunk_size:
  "map c_size (create_llm_chunks (markdown_doc long_paragraph) 2000) = [2001]"
  by (simp add: long_paragraph_chunks)

text \<open>
  C2, amended. For a non-negative maximum (2000 in the service), every chunk returned by
  \<open>create_llm_chunks\<close> has a recorded size within the maximum, or it is exactly one whole
  trimmed paragraph of the markdown, longer than the maximum, with its length as size:
  paragraphs are grouped, never split.
\<close>

theorem chunk_size_bound:
  assumes "0 \<le> max_chunk_size"
  shows "\<forall>c\<in>set (create_llm_chunks doc max_chunk_size).
           c_size c \<le> max_chunk_size
           \<or> (\<exists>md. export_to_markdown doc = Inr md \<and> c_text c \<in> set (paragraphs_of md)
                  \<and> c_size c = int (length (c_text c)))"
proof (cases "export_to_markdown doc")
  case (Inl e)
  with assms show ?thesis by (simp add: create_llm_chunks_def)
next
  case (Inr md)
  obtain groups where
    chunks: "paragraph_chunks md max_chunk_size
               = map (\<lambda>g. paragraph_chunk g (total_length g)) groups"
    and ok: "\<forall>g\<in>set groups. g \<noteq> [] \<and> (total_length g \<le> max_chunk_size \<or> length g = 1)"
    and cat: "concat groups = paragraphs_of md"
    using paragraph_chunks_groups by blast
  show ?thesis
  proof
    fix c assume "c \<in> set (create_llm_chunks doc max_chunk_size)"
    then obtain g where g: "g \<in> set groups" and c: "c = paragraph_chunk g (total_length g)"
      using Inr chunks by (auto simp: create_llm_chunks_def)
    from ok g consider "total_length g \<le> max_chunk_size" | "length g = 1" by blast
    then show "c_size c \<le> max_chunk_size
           \<or> (\<exists>md. export_to_markdown doc = Inr md \<and> c_text c \<in> set (paragraphs_of md)
                  \<and> c_size c = int (length (c_text c)))"
    proof cases
      case 1
      then show ?thesis by (simp add: c paragraph_chunk_def)
    next
      case 2
      then obtain p where p: "g = [p]" by (cases g) auto
      then have "p \<in> set (concat groups)" using g by (auto intro!: bexI [of _ "[p]"])
      then have "p \<in> set (paragraphs_of md)" using cat by simp
      then show ?thesis using Inr p by (simp add: c paragraph_chunk_def)
    qed
  qed
qed

theorem chunk_size_bound_witness:
  "(0::int) \<le> 2000
   \<and> create_llm_chunks (markdown_doc long_paragraph) 2000
       = [\<lparr>c_text = long_paragraph, c_size = 2001, c_type = ''paragraph_group''\<rparr>]
   \<and> long_paragraph \<in> set (paragraphs_of long_paragraph)
   \<and> (2001::int) = int (length long_paragraph)"
proof -
  have h: "(0::int) \<le> 2000" by simp
  from chunk_size_bound [OF h, of "markdown_doc long_paragraph"]
  show ?thesis
    unfolding long_paragraph_chunks by (simp add: markdown_doc_def)
qed

text \<open>
  C1, as the claim states it, fails on the same document: the paragraph sizes sum to more
  than 2000, and there is one chunk.
\<close>

theorem oversized_paragraph_single_chunk:
  "2000 < total_length (paragraphs_of long_paragraph)
   \<and> length (create_llm_chunks (markdown_doc long_paragraph) 2000) = 1"
  by (simp add: long_paragraph_paragraphs long_paragraph_chunks) (simp add: long_paragraph_def)

text \<open>
  C1, amended. For a markdown export \<open>md\<close> and any maximum chunk size: when \<open>md\<close> has at
  least two trimmed non-empty paragraphs and their lengths sum to more than the maximum,
  there are at least two chunks; every chunk's recorded size is the sum of the lengths of
  the paragraphs its text splits into; splitting every chunk's text on the separator gives
  back, in order, the trimmed non-empty paragraphs of \<open>md\<close>; and so does splitting the
  chunks' texts joined by the separator, when there is a paragraph at all.
\<close>

theorem chunks_reconstruct_paragraphs:
  assumes "export_to_markdown doc = Inr md"
  shows "(2 \<le> length (paragraphs_of md) \<and> max_chunk_size < total_length (paragraphs_of md)
            \<longrightarrow> 2 \<le> length (create_llm_chunks doc max_chunk_size))
         \<and> (\<forall>c\<in>set (create_llm_chunks doc max_chunk_size).
               c_size c = total_length (str_split (c_text c) para_sep))
         \<and> concat (map (\<lambda>c. str_split (c_text c) para_sep)
               (create_llm_chunks doc max_chunk_size)) = paragraphs_of md
         \<and> (paragraphs_of md \<noteq> [] \<longrightarrow>
               str_split (str_join para_sep (map c_text (create_llm_chunks doc max_chunk_size)))
                 para_sep = paragraphs_of md)"
proof -
  let ?mk = "\<lambda>g. paragraph_chunk g (total_length g)"
  obtain groups where
    chunks: "paragraph_chunks md max_chunk_size = map ?mk groups"
    and ok: "\<forall>g\<in>set groups. g \<noteq> [] \<and> (total_length g \<le> max_chunk_size \<or> length g = 1)"
    and cat: "concat groups = paragraphs_of md"
    using paragraph_chunks_groups by blast
  have out: "create_llm_chunks doc max_chunk_size = map ?mk groups"
    using assms chunks by (simp add: create_llm_chunks_def)
  have "\<forall>g\<in>set groups. set g \<subseteq> set (concat groups)" by auto
  then have sub: "\<forall>g\<in>set groups. set g \<subseteq> set (paragraphs_of md)"
    using cat by simp
  have split: "\<forall>g\<in>set groups. str_split (c_text (?mk g)) para_sep = g"
  proof
    fix g assume g: "g \<in> set groups"
    then have "g \<noteq> []" and "set g \<subseteq> set (paragraphs_of md)" using ok sub by auto
    then show "str_split (c_text (?mk g)) para_sep = g" by (rule paragraph_chunk_split)
  qed
  have count: "2 \<le> length (paragraphs_of md) \<and> max_chunk_size < total_length (paragraphs_of md)
            \<longrightarrow> 2 \<le> length (create_llm_chunks doc max_chunk_size)"
  proof
    assume a: "2 \<le> length (paragraphs_of md) \<and> max_chunk_size < total_length (paragraphs_of md)"
    show "2 \<le> length (create_llm_chunks doc max_chunk_size)"
    proof (rule ccontr)
      assume "\<not> 2 \<le> length (create_llm_chunks doc max_chunk_size)"
      then have "length groups < 2" using out by simp
      then consider "groups = []" | g where "groups = [g]"
        by (cases groups; cases "tl groups") auto
      then show False
      proof cases
        case 1
        with cat a show False by simp
      next
        case 2
        with cat have "g = paragraphs_of md" by simp
        moreover from ok 2 have "total_length g \<le> max_chunk_size \<or> length g = 1" by simp
        ultimately show False using a by auto
      qed
    qed
  qed
  have sizes: "\<forall>c\<in>set (create_llm_chunks doc max_chunk_size).
               c_size c = total_length (str_split (c_text c) para_sep)"
  proof
    fix c assume "c \<in> set (create_llm_chunks doc max_chunk_size)"
    then obtain g where g: "g \<in> set groups" and c: "c = ?mk g" using out by auto
    from split g have "str_split (c_text c) para_sep = g" unfolding c by blast
    then show "c_size c = total_length (str_split (c_text c) para_sep)"
      by (simp add: c paragraph_chunk_def)
  qed
  have "map (\<lambda>c. str_split (c_text c) para_sep) (map ?mk groups) = groups"
    using split by (simp add: map_idI)
  then have pieces: "concat (map (\<lambda>c. str_split (c_text c) para_sep)
               (create_llm_chunks doc max_chunk_size)) = paragraphs_of md"
    using out cat by simp
  have whole: "paragraphs_of md \<noteq> [] \<longrightarrow>
               str_split (str_join para_sep (map c_text (create_llm_chunks doc max_chunk_size)))
                 para_sep = paragraphs_of md"
  proof
    assume ne: "paragraphs_of md \<noteq> []"
    have "map c_text (create_llm_chunks doc max_chunk_size) = map (str_join para_sep) groups"
      unfolding out by (simp add: paragraph_chunk_def)
    then have "str_join para_sep (map c_text (create_llm_chunks doc max_chunk_size))
                 = str_join para_sep (map (str_join para_sep) groups)"
      by (rule arg_cong)
    also have "\<dots> = str_join para_sep (concat groups)"
      using ok by (intro str_join_concat) blast
    finally have "str_join para_sep (map c_text (create_llm_chunks doc max_chunk_size))
                 = str_join para_sep (paragraphs_of md)"
      using cat by simp
    moreover have "\<forall>p\<in>set (paragraphs_of md).
                     \<not> str_contains p para_sep \<and> (p = [] \<or> last p \<noteq> newline)"
      using paragraphs_of_clean by blast
    ultimately show "str_split (str_join para_sep
                       (map c_text (create_llm_chunks doc max_chunk_size))) para_sep
                     = paragraphs_of md"
      using split_join_clean [OF ne, of "[]"] ne by (simp add: str_split_def)
  qed
  from count sizes pieces whole show ?thesis by blast
qed

theorem chunks_reconstruct_paragraphs_witness:
  "2 \<le> length (paragraphs_of two_paragraphs_md)
   \<and> 2000 < total_length (paragraphs_of two_paragraphs_md)
   \<and> 2 \<le> length (create_llm_chunks (markdown_doc two_paragraphs_md) 2000)
   \<and> str_split (str_join para_sep
         (map c_text (create_llm_chunks (markdown_doc two_paragraphs_md) 2000))) para_sep
       = [replicate 1500 (CHR ''a''), replicate 1500 (CHR ''b'')]"
proof -
  have h: "export_to_markdown (markdown_doc two_paragraphs_md) = Inr two_paragraphs_md"
    by (simp add: markdown_doc_def)
  have n: "2 \<le> length (paragraphs_of two_paragraphs_md)"
    and t: "2000 < total_length (paragraphs_of two_paragraphs_md)"
    and ne: "paragraphs_of two_paragraphs_md \<noteq> []"
    by (simp_all add: two_paragraphs_md_paragraphs)
  from chunks_reconstruct_paragraphs [OF h, of 2000] n t ne
  show ?thesis by (simp add: two_paragraphs_md_paragraphs)
qed

section \<open>The page-aware loop\<close>

text \<open>
  The loop cuts the items it does not skip into consecutive groups: each flushed chunk is
  the chunk of one group, and the running chunk holds the last, unfinished group.
\<close>

lemma text_items_loop_groups:
  assumes "current_chunk = map trimmed_text cur"
    and "cur \<noteq> [] \<longrightarrow> current_page = page_no (last cur)"
  shows "\<exists>groups cur' page'.
           text_items_loop d ts chunks k current_chunk current_page
             = (chunks @ map (group_chunk d) (enumerate k groups), k + length groups,
                map trimmed_text cur', page')
         \<and> (cur' \<noteq> [] \<longrightarrow> page' = page_no (last cur'))
         \<and> (\<forall>g\<in>set groups. g \<noteq> [])
         \<and> concat groups @ cur' = cur @ nonblank_items ts
         \<and> ((\<forall>t\<in>set (cur @ nonblank_items ts). truthy_page (page_no t))
              \<and> (\<forall>t\<in>set cur. page_no t = page_no (last cur))
              \<longrightarrow> (\<forall>g\<in>set groups. \<forall>t\<in>set g. page_no t = page_no (last g))
                  \<and> (\<forall>t\<in>set cur'. page_no t = page_no (last cur')))"
  using assms
proof (induction ts arbitrary: chunks k current_chunk current_page cur)
  case Nil
  show ?case
    using Nil
    by (intro exI [of _ "[]"] exI [of _ cur] exI [of _ current_page])
       (simp add: nonblank_items_def)
next
  case (Cons t ts)
  let ?text = "str_strip (item_text t)"
  show ?case
  proof (cases "?text = []")
    case True
    from Cons.IH [OF Cons.prems, of chunks k] True show ?thesis
      by (simp add: nonblank_items_def trimmed_text_def)
  next
    case False
    have nb: "nonblank_items (t # ts) = t # nonblank_items ts"
      using False by (simp add: nonblank_items_def trimmed_text_def)
    let ?flush = "((truthy_page current_page \<and> page_no t \<noteq> current_page)
                  \<or> length (str_join '' '' current_chunk) > 1000) \<and> current_chunk \<noteq> []"
    show ?thesis
    proof (cases ?flush)
      case True
      then have cne: "cur \<noteq> []" using Cons.prems(1) by auto
      have a: "[?text] = map trimmed_text [t]" by (simp add: trimmed_text_def)
      have b: "[t] \<noteq> [] \<longrightarrow> page_no t = page_no (last [t])" by simp
      from Cons.IH [OF a b,
          of "chunks @ [text_chunk d k current_chunk current_page]" "k + 1"]
      obtain groups cur' page' where
        run: "text_items_loop d ts (chunks @ [text_chunk d k current_chunk current_page])
                (k + 1) [?text] (page_no t)
              = ((chunks @ [text_chunk d k current_chunk current_page])
                   @ map (group_chunk d) (enumerate (k + 1) groups),
                 (k + 1) + length groups, map trimmed_text cur', page')"
        and pg: "cur' \<noteq> [] \<longrightarrow> page' = page_no (last cur')"
        and ne: "\<forall>g\<in>set groups. g \<noteq> []"
        and cat: "concat groups @ cur' = [t] @ nonblank_items ts"
        and uni: "(\<forall>t\<in>set ([t] @ nonblank_items ts). truthy_page (page_no t))
              \<and> (\<forall>u\<in>set [t]. page_no u = page_no (last [t]))
              \<longrightarrow> (\<forall>g\<in>set groups. \<forall>t\<in>set g. page_no t = page_no (last g))
                  \<and> (\<forall>t\<in>set cur'. page_no t = page_no (last cur'))"
        by blast
      have gc: "text_chunk d k current_chunk current_page = group_chunk d (k, cur)"
        using Cons.prems cne by (simp add: group_chunk_def)
      have "text_items_loop d (t # ts) chunks k current_chunk current_page
              = (chunks @ map (group_chunk d) (enumerate k (cur # groups)),
                 k + length (cur # groups), map trimmed_text cur', page')"
        using True False run gc by (simp add: Let_def)
      moreover have "\<forall>g\<in>set (cur # groups). g \<noteq> []" using ne cne by simp
      moreover have "concat (cur # groups) @ cur' = cur @ nonblank_items (t # ts)"
        using cat nb by simp
      moreover have "(\<forall>t\<in>set (cur @ nonblank_items (t # ts)). truthy_page (page_no t))
              \<and> (\<forall>t\<in>set cur. page_no t = page_no (last cur))
              \<longrightarrow> (\<forall>g\<in>set (cur # groups). \<forall>t\<in>set g. page_no t = page_no (last g))
                  \<and> (\<forall>t\<in>set cur'. page_no t = page_no (last cur'))"
      proof
        assume h: "(\<forall>t\<in>set (cur @ nonblank_items (t # ts)). truthy_page (page_no t))
              \<and> (\<forall>t\<in>set cur. page_no t = page_no (last cur))"
        have "\<forall>u\<in>set ([t] @ nonblank_items ts). truthy_page (page_no u)"
          using h nb by simp
        moreover have "\<forall>u\<in>set [t]. page_no u = page_no (last [t])" by simp
        ultimately have r: "(\<forall>g\<in>set groups. \<forall>t\<in>set g. page_no t = page_no (last g))
                  \<and> (\<forall>t\<in>set cur'. page_no t = page_no (last cur'))"
          using uni by blast
        from h have h2: "\<forall>u\<in>set cur. page_no u = page_no (last cur)" by blast
        have "\<forall>g\<in>set (cur # groups). \<forall>t\<in>set g. page_no t = page_no (last g)"
        proof
          fix g assume "g \<in> set (cur # groups)"
          then consider "g = cur" | "g \<in> set groups" by auto
          then show "\<forall>t\<in>set g. page_no t = page_no (last g)"
            using h2 r by cases blast+
        qed
        then show "(\<forall>g\<in>set (cur # groups). \<forall>t\<in>set g. page_no t = page_no (last g))
                  \<and> (\<forall>t\<in>set cur'. page_no t = page_no (last cur'))"
          using r by blast
      qed
      ultimately show ?thesis using pg by blast
    next
      case no_flush: False
      have a: "current_chunk @ [?text] = map trimmed_text (cur @ [t])"
        using Cons.prems(1) by (simp add: trimmed_text_def)
      have b: "cur @ [t] \<noteq> [] \<longrightarrow> page_no t = page_no (last (cur @ [t]))" by simp
      from Cons.IH [OF a b, of chunks k]
      obtain groups cur' page' where
        run: "text_items_loop d ts chunks k (current_chunk @ [?text]) (page_no t)
              = (chunks @ map (group_chunk d) (enumerate k groups),
                 k + length groups, map trimmed_text cur', page')"
        and pg: "cur' \<noteq> [] \<longrightarrow> page' = page_no (last cur')"
        and ne: "\<forall>g\<in>set groups. g \<noteq> []"
        and cat: "concat groups @ cur' = (cur @ [t]) @ nonblank_items ts"
        and uni: "(\<forall>u\<in>set ((cur @ [t]) @ nonblank_items ts). truthy_page (page_no u))
              \<and> (\<forall>u\<in>set (cur @ [t]). page_no u = page_no (last (cur @ [t])))
              \<longrightarrow> (\<forall>g\<in>set groups. \<forall>t\<in>set g. page_no t = page_no (last g))
                  \<and> (\<forall>t\<in>set cur'. page_no t = page_no (last cur'))"
        by blast
      have "text_items_loop d (t # ts) chunks k current_chunk current_page
              = (chunks @ map (group_chunk d) (enumerate k groups),
                 k + length groups, map trimmed_text cur', page')"
        using no_flush False run by (auto simp: Let_def)
      moreover have "concat groups @ cur' = cur @ nonblank_items (t # ts)"
        using cat nb by simp
      moreover have "(\<forall>t\<in>set (cur @ nonblank_items (t # ts)). truthy_page (page_no t))
              \<and> (\<forall>t\<in>set cur. page_no t = page_no (last cur))
              \<longrightarrow> (\<forall>g\<in>set groups. \<forall>t\<in>set g. page_no t = page_no (last g))
                  \<and> (\<forall>t\<in>set cur'. page_no t = page_no (last cur'))"
      proof
        assume h: "(\<forall>t\<in>set (cur @ nonblank_items (t # ts)). truthy_page (page_no t))
              \<and> (\<forall>t\<in>set cur. page_no t = page_no (last cur))"
        from h have h1: "\<forall>u\<in>set (cur @ nonblank_items (t # ts)). truthy_page (page_no u)"
          and h2: "\<forall>u\<in>set cur. page_no u = page_no (last cur)" by blast+
        have same: "cur \<noteq> [] \<longrightarrow> page_no t = page_no (last cur)"
        proof
          assume cne: "cur \<noteq> []"
          then have cp: "current_page = page_no (last cur)" using Cons.prems(2) by blast
          have "last cur \<in> set (cur @ nonblank_items (t # ts))" using cne by simp
          then have tr: "truthy_page (page_no (last cur))" using h1 by blast
          have ccne: "current_chunk \<noteq> []" using cne Cons.prems(1) by simp
          show "page_no t = page_no (last cur)"
          proof (rule ccontr)
            assume "page_no t \<noteq> page_no (last cur)"
            then have "truthy_page current_page \<and> page_no t \<noteq> current_page"
              using tr cp by simp
            with ccne no_flush show False by blast
          qed
        qed
        have "\<forall>u\<in>set (cur @ [t]). page_no u = page_no (last (cur @ [t]))"
        proof
          fix u assume "u \<in> set (cur @ [t])"
          then consider "u \<in> set cur" | "u = t" by auto
          then show "page_no u = page_no (last (cur @ [t]))"
          proof cases
            case 1
            then have "cur \<noteq> []" by auto
            with same have "page_no t = page_no (last cur)" by blast
            moreover from 1 h2 have "page_no u = page_no (last cur)" by blast
            ultimately show ?thesis by simp
          next
            case 2
            then show ?thesis by simp
          qed
        qed
        moreover have "\<forall>u\<in>set ((cur @ [t]) @ nonblank_items ts). truthy_page (page_no u)"
          using h1 nb by simp
        ultimately show "(\<forall>g\<in>set groups. \<forall>t\<in>set g. page_no t = page_no (last g))
                  \<and> (\<forall>t\<in>set cur'. page_no t = page_no (last cur'))"
          using uni by blast
      qed
      ultimately show ?thesis using pg ne by blast
    qed
  qed
qed

lemma text_chunks_of_groups:
  "\<exists>groups.
     text_chunks_of d items = map (group_chunk d) (enumerate 0 groups)
     \<and> (\<forall>g\<in>set groups. g \<noteq> [])
     \<and> concat groups = nonblank_items items
     \<and> ((\<forall>t\<in>set (nonblank_items items). truthy_page (page_no t))
          \<longrightarrow> (\<forall>g\<in>set groups. \<forall>t\<in>set g. page_no t = page_no (last g)))"
proof -
  have a: "([]::string list) = map trimmed_text []" by simp
  have b: "([]::text_item list) \<noteq> [] \<longrightarrow> None = page_no (last [])" by simp
  from text_items_loop_groups [OF a b, of d items "[]" 0]
  have "\<exists>groups cur' page'.
      text_items_loop d items [] 0 [] None
        = (map (group_chunk d) (enumerate 0 groups), length groups,
           map trimmed_text cur', page')
      \<and> (cur' \<noteq> [] \<longrightarrow> page' = page_no (last cur'))
      \<and> (\<forall>g\<in>set groups. g \<noteq> [])
      \<and> concat groups @ cur' = nonblank_items items
      \<and> ((\<forall>t\<in>set (nonblank_items items). truthy_page (page_no t))
              \<longrightarrow> (\<forall>g\<in>set groups. \<forall>t\<in>set g. page_no t = page_no (last g))
                  \<and> (\<forall>t\<in>set cur'. page_no t = page_no (last cur')))"
    by simp
  then obtain groups cur' page' where
    run: "text_items_loop d items [] 0 [] None
            = (map (group_chunk d) (enumerate 0 groups), length groups,
               map trimmed_text cur', page')"
    and pg: "cur' \<noteq> [] \<longrightarrow> page' = page_no (last cur')"
    and ne: "\<forall>g\<in>set groups. g \<noteq> []"
    and cat: "concat groups @ cur' = nonblank_items items"
    and uni: "(\<forall>t\<in>set (nonblank_items items). truthy_page (page_no t))
              \<longrightarrow> (\<forall>g\<in>set groups. \<forall>t\<in>set g. page_no t = page_no (last g))
                  \<and> (\<forall>t\<in>set cur'. page_no t = page_no (last cur'))"
    by blast
  show ?thesis
  proof (cases "cur' = []")
    case True
    have "text_chunks_of d items = map (group_chunk d) (enumerate 0 groups)"
      using run True by (simp add: text_chunks_of_def)
    moreover have "concat groups = nonblank_items items" using cat True by simp
    ultimately show ?thesis using ne uni by blast
  next
    case False
    have "text_chunk d (length groups) (map trimmed_text cur') page'
            = group_chunk d (length groups, cur')"
      using pg False by (simp add: group_chunk_def)
    then have "text_chunks_of d items = map (group_chunk d) (enumerate 0 (groups @ [cur']))"
      using run False by (simp add: text_chunks_of_def enumerate_append_eq)
    moreover have "\<forall>g\<in>set (groups @ [cur']). g \<noteq> []" using ne False by simp
    moreover have "concat (groups @ [cur']) = nonblank_items items" using cat by simp
    moreover have "(\<forall>t\<in>set (nonblank_items items). truthy_page (page_no t))
          \<longrightarrow> (\<forall>g\<in>set (groups @ [cur']). \<forall>t\<in>set g. page_no t = page_no (last g))"
    proof
      assume "\<forall>t\<in>set (nonblank_items items). truthy_page (page_no t)"
      with uni have u1: "\<forall>g\<in>set groups. \<forall>t\<in>set g. page_no t = page_no (last g)"
        and u2: "\<forall>t\<in>set cur'. page_no t = page_no (last cur')" by blast+
      show "\<forall>g\<in>set (groups @ [cur']). \<forall>t\<in>set g. page_no t = page_no (last g)"
      proof
        fix g assume "g \<in> set (groups @ [cur'])"
        then consider "g \<in> set groups" | "g = cur'" by auto
        then show "\<forall>t\<in>set g. page_no t = page_no (last g)"
          using u1 u2 by cases blast+
      qed
    qed
    ultimately show ?thesis by blast
  qed
qed

lemma table_chunks_loop_appends:
  "\<exists>tbl. table_chunks_loop d i tbs chunks = chunks @ tbl
         \<and> (\<forall>c\<in>set tbl. dc_chunk_type c = Some ''table'')"
proof (induction tbs arbitrary: i chunks)
  case Nil
  show ?case by simp
next
  case (Cons t tbs)
  show ?case
  proof (cases "table_html t")
    case (Inl e)
    then show ?thesis by simp
  next
    case (Inr html)
    from Cons.IH [of "Suc i" "chunks @ [table_chunk d i html (table_page_no t)]"]
    obtain tbl where
      "table_chunks_loop d (Suc i) tbs (chunks @ [table_chunk d i html (table_page_no t)])
         = (chunks @ [table_chunk d i html (table_page_no t)]) @ tbl"
      and "\<forall>c\<in>set tbl. dc_chunk_type c = Some ''table''" by blast
    then show ?thesis using Inr
      by (intro exI [of _ "table_chunk d i html (table_page_no t) # tbl"])
         (simp add: table_chunk_def)
  qed
qed

lemma table_chunks_loop_all:
  "table_chunks_loop d i (map html_table htmls) chunks
     = chunks @ map (\<lambda>(j, h). table_chunk d j h None) (enumerate i htmls)"
  by (induction htmls arbitrary: i chunks) (simp_all add: table_html_def html_table_def)

lemma group_chunk_fields:
  "map dc_page_number (map (group_chunk d) (enumerate k groups))
     = map (\<lambda>g. page_no (last g)) groups"
  "map dc_content (map (group_chunk d) (enumerate k groups))
     = map (\<lambda>g. str_join '' '' (map trimmed_text g)) groups"
  by (induction groups arbitrary: k) (simp_all add: group_chunk_def text_chunk_def)

lemma plain_strip:
  "str_strip ''a'' = ''a''" "str_strip ''b'' = ''b''" "str_strip ''c'' = ''c''"
  "str_strip ''x'' = ''x''" "str_strip '' y '' = ''y''" "str_strip ''z'' = ''z''"
  by (simp_all add: str_strip_def isspace_def)

section \<open>Page-aware chunks: properties\<close>

text \<open>
  C5, as the claim states it, fails when an item without a page number is followed by an
  item on page 1: both land in one chunk, whose page number is 1, while the first item
  accumulated into it has none.
\<close>

theorem unpaged_first_item_chunk:
  "map dc_content (create_chunks (texts_doc unpaged_first_items []) ''doc'') = [''a b'']
   \<and> map dc_page_number (create_chunks (texts_doc unpaged_first_items []) ''doc'') = [Some 1]
   \<and> map page_no unpaged_first_items = [None, Some 1]"
  by (simp add: create_chunks_def texts_doc_def unpaged_first_items_def plain_item_def
      text_chunks_of_def plain_strip truthy_page_def text_chunk_def)

text \<open>
  C5, amended. The text chunks of \<open>_create_chunks\<close> are the chunks of consecutive,
  non-empty groups of the non-blank text items, in order, followed by the table chunks;
  each text chunk's page number is that of the last item accumulated into it; when every
  non-blank item has a page number that is present and not 0, it is also the page number
  of the first item accumulated into it.
\<close>

theorem text_chunk_page_numbers:
  assumes "texts doc = Present items"
  shows "\<exists>groups tbl.
           create_chunks doc d = map (group_chunk d) (enumerate 0 groups) @ tbl
         \<and> (\<forall>c\<in>set tbl. dc_chunk_type c = Some ''table'')
         \<and> (\<forall>g\<in>set groups. g \<noteq> [])
         \<and> concat groups = nonblank_items items
         \<and> map dc_content (map (group_chunk d) (enumerate 0 groups))
             = map (\<lambda>g. str_join '' '' (map trimmed_text g)) groups
         \<and> map dc_page_number (map (group_chunk d) (enumerate 0 groups))
             = map (\<lambda>g. page_no (last g)) groups
         \<and> ((\<forall>t\<in>set (nonblank_items items). truthy_page (page_no t)) \<longrightarrow>
               map dc_page_number (map (group_chunk d) (enumerate 0 groups))
                 = map (\<lambda>g. page_no (hd g)) groups)"
proof -
  obtain groups where
    tc: "text_chunks_of d items = map (group_chunk d) (enumerate 0 groups)"
    and ne: "\<forall>g\<in>set groups. g \<noteq> []"
    and cat: "concat groups = nonblank_items items"
    and uni: "(\<forall>t\<in>set (nonblank_items items). truthy_page (page_no t))
          \<longrightarrow> (\<forall>g\<in>set groups. \<forall>t\<in>set g. page_no t = page_no (last g))"
    using text_chunks_of_groups by blast
  obtain tbl where
    out: "create_chunks doc d = map (group_chunk d) (enumerate 0 groups) @ tbl"
    and tb: "\<forall>c\<in>set tbl. dc_chunk_type c = Some ''table''"
  proof (cases "tables doc")
    case Absent
    then have "create_chunks doc d = map (group_chunk d) (enumerate 0 groups) @ []"
      using assms tc by (simp add: create_chunks_def)
    then show ?thesis using that [of "[]"] by simp
  next
    case (Raises e)
    then have "create_chunks doc d = map (group_chunk d) (enumerate 0 groups) @ []"
      using assms tc by (simp add: create_chunks_def)
    then show ?thesis using that [of "[]"] by simp
  next
    case (Present tbs)
    obtain tbl where "table_chunks_loop d 0 tbs (text_chunks_of d items)
                        = text_chunks_of d items @ tbl"
      and t: "\<forall>c\<in>set tbl. dc_chunk_type c = Some ''table''"
      using table_chunks_loop_appends by blast
    then have "create_chunks doc d = map (group_chunk d) (enumerate 0 groups) @ tbl"
      using assms tc Present by (simp add: create_chunks_def)
    then show ?thesis using that [of tbl] t by simp
  qed
  have first: "(\<forall>t\<in>set (nonblank_items items). truthy_page (page_no t)) \<longrightarrow>
               map dc_page_number (map (group_chunk d) (enumerate 0 groups))
                 = map (\<lambda>g. page_no (hd g)) groups"
  proof
    assume "\<forall>t\<in>set (nonblank_items items). truthy_page (page_no t)"
    with uni have u: "\<forall>g\<in>set groups. \<forall>t\<in>set g. page_no t = page_no (last g)" by blast
    have "\<forall>g\<in>set groups. page_no (last g) = page_no (hd g)"
    proof
      fix g assume g: "g \<in> set groups"
      with ne have "hd g \<in> set g" by simp
      with u g show "page_no (last g) = page_no (hd g)" by metis
    qed
    then have "map (\<lambda>g. page_no (last g)) groups = map (\<lambda>g. page_no (hd g)) groups"
      by simp
    then show "map dc_page_number (map (group_chunk d) (enumerate 0 groups))
                 = map (\<lambda>g. page_no (hd g)) groups"
      by (simp only: group_chunk_fields)
  qed
  show ?thesis
    using out tb ne cat first group_chunk_fields [of d 0 groups]
    by (intro exI [of _ groups] exI [of _ tbl] conjI)
qed

theorem text_chunk_page_numbers_witness:
  "\<exists>groups tbl.
     create_chunks (texts_doc paged_items []) ''doc''
       = map (group_chunk ''doc'') (enumerate 0 groups) @ tbl
     \<and> concat groups = paged_items
     \<and> map dc_page_number (map (group_chunk ''doc'') (enumerate 0 groups))
         = map (\<lambda>g. page_no (hd g)) groups"
proof -
  have h: "texts (texts_doc paged_items []) = Present paged_items"
    by (simp add: texts_doc_def)
  have nb: "nonblank_items paged_items = paged_items"
    by (simp add: nonblank_items_def paged_items_def trimmed_text_def plain_item_def plain_strip)
  have tr: "\<forall>t\<in>set (nonblank_items paged_items). truthy_page (page_no t)"
    unfolding nb by (simp add: paged_items_def plain_item_def truthy_page_def)
  from text_chunk_page_numbers [OF h, of "''doc''"] tr nb show ?thesis by auto
qed

text \<open>
  C6. For the items \<open>a\<close>, \<open>b\<close> on page 0 and \<open>c\<close> on page 1 the change of page is
  missed, because page 0 counts as false in \<open>current_page and \<dots>\<close>: the output is the
  single chunk \<open>a b c\<close> with page number 1, not the two chunks of the claim.
\<close>

theorem create_chunks_page_zero:
  "create_chunks (texts_doc (abc_items 0 1) []) ''doc''
     = [text_chunk ''doc'' 0 [''a'', ''b'', ''c''] (Some 1)]
   \<and> map dc_content (create_chunks (texts_doc (abc_items 0 1) []) ''doc'') = [''a b c'']"
  by (simp add: create_chunks_def texts_doc_def abc_items_def plain_item_def
      text_chunks_of_def plain_strip truthy_page_def) (simp add: text_chunk_def)

text \<open>
  For a first page other than 0 the output is as described: two text chunks, then one
  chunk per table.
\<close>

lemma create_chunks_two_pages:
  assumes "p1 \<noteq> p2" and "p1 \<noteq> 0"
  shows "create_chunks (texts_doc (abc_items p1 p2) (map html_table htmls)) d
           = [text_chunk d 0 [''a'', ''b''] (Some p1), text_chunk d 1 [''c''] (Some p2)]
             @ map (\<lambda>(j, h). table_chunk d j h None) (enumerate 0 htmls)"
  using assms
  by (simp add: create_chunks_def texts_doc_def abc_items_def plain_item_def
      text_chunks_of_def plain_strip truthy_page_def table_chunks_loop_all)

end
